theory Spec2Isabelle
  imports Main
begin

section \<open>Python values and strings\<close>

text \<open>
  The fields of a task and the next-id counter hold Python values.  After
  \<^verbatim>\<open>json.load\<close> a field may hold any value JSON can express, since
  \<^verbatim>\<open>Task.from_dict\<close> checks no types, so the model keeps them dynamically
  typed.  A dict is the list of its items in insertion order, looked up with
  \<^const>\<open>map_of\<close>.  Floating-point numbers are left out.

  A Python \<^verbatim>\<open>str\<close> is a list of code points; the model covers the code
  points below 256, one \<^typ>\<open>char\<close> each.
\<close>

datatype pyval =
    PNone
  | PBool bool
  | PInt int
  | PStr string
  | PList "pyval list"
  | PDict "(string \<times> pyval) list"

datatype exn = AttributeError | TypeError | KeyError | OSError | JSONDecodeError

text \<open>What a call does: it returns a value or it raises.\<close>

datatype 'a outcome = Returns 'a | Raises exn

text \<open>An exception ends the rest of a computation.\<close>

definition try_bind :: "exn + 'a \<Rightarrow> ('a \<Rightarrow> exn + 'b) \<Rightarrow> exn + 'b" where
  "try_bind r f = (case r of Inl e \<Rightarrow> Inl e | Inr v \<Rightarrow> f v)"

text \<open>
  \<^verbatim>\<open>str.lower()\<close> on the code points below 256: the letters A to Z and the
  Latin-1 capitals 192 to 222, the multiplication sign 215 apart, move up by 32.
\<close>

definition lower_char :: "char \<Rightarrow> char" where
  "lower_char c =
     (let n = (of_char c :: nat)
      in if (65 \<le> n \<and> n \<le> 90) \<or> (192 \<le> n \<and> n \<le> 222 \<and> n \<noteq> 215)
         then char_of (n + 32) else c)"

definition lower :: "string \<Rightarrow> string" where
  "lower s = map lower_char s"

text \<open>
  \<^verbatim>\<open>str.strip()\<close> without argument removes leading and trailing white space;
  below 256 the white-space code points are 9 to 13, 28 to 32, 133 and 160.
\<close>

definition isspace :: "char \<Rightarrow> bool" where
  "isspace c =
     (let n = (of_char c :: nat)
      in (9 \<le> n \<and> n \<le> 13) \<or> (28 \<le> n \<and> n \<le> 32) \<or> n = 133 \<or> n = 160)"

definition strip :: "string \<Rightarrow> string" where
  "strip s = rev (dropWhile isspace (rev (dropWhile isspace s)))"

text \<open>
  \<^verbatim>\<open>v.lower()\<close> on a field: only a \<^verbatim>\<open>str\<close> has the method, every other
  value raises \<^verbatim>\<open>AttributeError\<close>.
\<close>

fun py_lower :: "pyval \<Rightarrow> exn + string" where
  "py_lower (PStr s) = Inr (lower s)"
| "py_lower _ = Inl AttributeError"

text \<open>
  \<^verbatim>\<open>v == n\<close> for an \<^verbatim>\<open>int\<close> \<open>n\<close>: \<^verbatim>\<open>bool\<close> is a subclass of
  \<^verbatim>\<open>int\<close>, so \<^verbatim>\<open>True == 1\<close>.
\<close>

fun py_eq_int :: "pyval \<Rightarrow> int \<Rightarrow> bool" where
  "py_eq_int (PInt i) n = (i = n)"
| "py_eq_int (PBool b) n = ((if b then 1 else 0) = n)"
| "py_eq_int _ n = False"

text \<open>\<^verbatim>\<open>v + 1\<close>, which raises \<^verbatim>\<open>TypeError\<close> unless \<open>v\<close> is a number.\<close>

fun py_add1 :: "pyval \<Rightarrow> exn + pyval" where
  "py_add1 (PInt i) = Inr (PInt (i + 1))"
| "py_add1 (PBool b) = Inr (PInt ((if b then 1 else 0) + 1))"
| "py_add1 _ = Inl TypeError"

text \<open>\<^verbatim>\<open>d.get(k, default)\<close>: only a dict has the method.\<close>

fun py_get :: "pyval \<Rightarrow> string \<Rightarrow> pyval \<Rightarrow> exn + pyval" where
  "py_get (PDict kvs) k dflt = Inr (case map_of kvs k of None \<Rightarrow> dflt | Some v \<Rightarrow> v)"
| "py_get _ k dflt = Inl AttributeError"

text \<open>
  \<^verbatim>\<open>d[k]\<close> for a string key: \<^verbatim>\<open>KeyError\<close> on a dict without the key,
  \<^verbatim>\<open>TypeError\<close> on every other value.
\<close>

fun py_item :: "pyval \<Rightarrow> string \<Rightarrow> exn + pyval" where
  "py_item (PDict kvs) k = (case map_of kvs k of None \<Rightarrow> Inl KeyError | Some v \<Rightarrow> Inr v)"
| "py_item _ k = Inl TypeError"

text \<open>
  The elements a \<^verbatim>\<open>for\<close> loop sees: the items of a list, the keys of a
  dict, the characters of a string; the other values are not iterable.
\<close>

fun py_iter :: "pyval \<Rightarrow> exn + pyval list" where
  "py_iter (PList xs) = Inr xs"
| "py_iter (PDict kvs) = Inr (map (\<lambda>kv. PStr (fst kv)) kvs)"
| "py_iter (PStr s) = Inr (map (\<lambda>c. PStr [c]) s)"
| "py_iter _ = Inl TypeError"

section \<open>Task\<close>

text \<open>
  The clock is an input: \<open>now\<close> is the text that
  \<^verbatim>\<open>datetime.now().strftime("%Y-%m-%d %H:%M:%S")\<close> returns at the call.
\<close>

record Task =
  id' :: pyval
  description :: pyval
  status :: pyval
  priority :: pyval
  category :: pyval
  created_date :: pyval
  completed_date :: pyval

definition Task_init :: "string \<Rightarrow> pyval \<Rightarrow> pyval \<Rightarrow> pyval \<Rightarrow> Task" where
  "Task_init now d p c =
     \<lparr>id' = PNone, description = d, status = PStr ''pending'', priority = p,
      category = c, created_date = PStr now, completed_date = PNone\<rparr>"

definition mark_completed :: "string \<Rightarrow> Task \<Rightarrow> Task" where
  "mark_completed now t = t\<lparr>status := PStr ''completed'', completed_date := PStr now\<rparr>"

definition to_dict :: "Task \<Rightarrow> pyval" where
  "to_dict t =
     PDict [(''id'', id' t), (''description'', description t), (''status'', status t),
            (''priority'', priority t), (''category'', category t),
            (''created_date'', created_date t), (''completed_date'', completed_date t)]"

text \<open>
  \<^verbatim>\<open>Task.from_dict\<close> reads the seven keys in the order of the source; the
  first one that is missing raises.  The constructor stamps a creation time
  that the record's own \<^verbatim>\<open>created_date\<close> then replaces.
\<close>

definition from_dict :: "string \<Rightarrow> pyval \<Rightarrow> exn + Task" where
  "from_dict now data =
     try_bind (py_item data ''description'') (\<lambda>d.
     try_bind (py_item data ''priority'') (\<lambda>p.
     try_bind (py_item data ''category'') (\<lambda>c.
     try_bind (py_item data ''id'') (\<lambda>i.
     try_bind (py_item data ''status'') (\<lambda>s.
     try_bind (py_item data ''created_date'') (\<lambda>cd.
     try_bind (py_item data ''completed_date'') (\<lambda>fd.
       Inr ((Task_init now d p c)
              \<lparr>id' := i, status := s, created_date := cd, completed_date := fd\<rparr>))))))))"

text \<open>
  The list comprehension \<^verbatim>\<open>[Task.from_dict(d) for d in ds]\<close>: the first
  record that raises ends it.
\<close>

fun from_dicts :: "string \<Rightarrow> pyval list \<Rightarrow> exn + Task list" where
  "from_dicts now [] = Inr []"
| "from_dicts now (d # ds) =
     try_bind (from_dict now d) (\<lambda>t.
     try_bind (from_dicts now ds) (\<lambda>ts. Inr (t # ts)))"

section \<open>The backing file\<close>

text \<open>
  The file system maps a path to what is stored there.  The JSON library is
  not part of the program: a file holds either text that \<^verbatim>\<open>json.load\<close>
  rejects, or text that it reads as a value, and reading back what
  \<^verbatim>\<open>json.dump\<close> wrote gives the value written.  A file that exists may
  also fail to open.  Opening a path for writing fails where \<open>writable\<close>
  is false, and then leaves the file as it was.
\<close>

datatype content = Unreadable | NotJson | Parsed pyval

record filesystem =
  files :: "string \<rightharpoonup> content"
  writable :: "string \<Rightarrow> bool"

section \<open>TodoListManager\<close>

record TodoListManager =
  data_file :: string
  tasks :: "Task list"
  next_id :: pyval

text \<open>
  \<^verbatim>\<open>save_tasks\<close> catches every exception and prints it: a failed write
  changes nothing.
\<close>

definition save_tasks :: "TodoListManager \<Rightarrow> filesystem \<Rightarrow> filesystem" where
  "save_tasks m fs =
     (let data = PDict [(''next_id'', next_id m),
                        (''tasks'', PList (map to_dict (tasks m)))]
      in if writable fs (data_file m)
         then fs\<lparr>files := (files fs)(data_file m \<mapsto> Parsed data)\<rparr>
         else fs)"

text \<open>
  The body of the \<^verbatim>\<open>try\<close> in \<^verbatim>\<open>load_tasks\<close>.  A missing file
  leaves the manager as it is.  The source assigns \<^verbatim>\<open>next_id\<close> before it
  builds the tasks; when building them raises, the handler overwrites both
  fields, so the model only assigns when nothing was raised.
\<close>

definition load_body :: "string \<Rightarrow> TodoListManager \<Rightarrow> filesystem \<Rightarrow> exn + TodoListManager" where
  "load_body now m fs =
     (case files fs (data_file m) of
        None \<Rightarrow> Inr m
      | Some Unreadable \<Rightarrow> Inl OSError
      | Some NotJson \<Rightarrow> Inl JSONDecodeError
      | Some (Parsed data) \<Rightarrow>
          try_bind (py_get data ''next_id'' (PInt 1)) (\<lambda>n.
          try_bind (py_get data ''tasks'' (PList [])) (\<lambda>v.
          try_bind (py_iter v) (\<lambda>ds.
          try_bind (from_dicts now ds) (\<lambda>ts.
            Inr (m\<lparr>next_id := n, tasks := ts\<rparr>))))))"

definition load_tasks :: "string \<Rightarrow> TodoListManager \<Rightarrow> filesystem \<Rightarrow> TodoListManager" where
  "load_tasks now m fs =
     (case load_body now m fs of
        Inl e \<Rightarrow> m\<lparr>tasks := [], next_id := PInt 1\<rparr>
      | Inr m' \<Rightarrow> m')"

definition TodoListManager_init :: "string \<Rightarrow> string \<Rightarrow> filesystem \<Rightarrow> TodoListManager" where
  "TodoListManager_init now path fs =
     load_tasks now \<lparr>data_file = path, tasks = [], next_id = PInt 1\<rparr> fs"

text \<open>
  A mutating call gives what the caller sees (the value returned or the
  exception raised), the manager afterwards and the file system afterwards.
\<close>

type_synonym 'a call = "'a outcome \<times> TodoListManager \<times> filesystem"

definition add_task ::
  "string \<Rightarrow> string \<Rightarrow> string \<Rightarrow> string \<Rightarrow> TodoListManager \<Rightarrow> filesystem \<Rightarrow> bool call" where
  "add_task now d p c m fs =
     (if strip d = [] then (Returns False, m, fs)
      else
        let task = (Task_init now (PStr (strip d)) (PStr p) (PStr c))\<lparr>id' := next_id m\<rparr>;
            m1 = m\<lparr>tasks := tasks m @ [task]\<rparr>
        in case py_add1 (next_id m1) of
             Inl e \<Rightarrow> (Raises e, m1, fs)
           | Inr n \<Rightarrow>
               (let m2 = m1\<lparr>next_id := n\<rparr> in (Returns True, m2, save_tasks m2 fs)))"

definition list_tasks :: "TodoListManager \<Rightarrow> Task list" where
  "list_tasks m = tasks m"

definition list_pending_tasks :: "TodoListManager \<Rightarrow> Task list" where
  "list_pending_tasks m = filter (\<lambda>t. status t = PStr ''pending'') (tasks m)"

definition list_completed_tasks :: "TodoListManager \<Rightarrow> Task list" where
  "list_completed_tasks m = filter (\<lambda>t. status t = PStr ''completed'') (tasks m)"

text \<open>
  The loops of \<^verbatim>\<open>mark_task_completed\<close>, \<^verbatim>\<open>mark_task_completed_by_id\<close>,
  \<^verbatim>\<open>remove_task\<close> and \<^verbatim>\<open>get_task_by_description\<close> have one shape: walk
  the tasks in order, evaluate a condition on each, act on the first task that
  satisfies it and return.  \<open>find_first\<close> gives the index of that task; a
  condition that raises ends the walk.
\<close>

fun find_first :: "(Task \<Rightarrow> exn + bool) \<Rightarrow> Task list \<Rightarrow> exn + nat option" where
  "find_first cond [] = Inr None"
| "find_first cond (t # ts) =
     (case cond t of
        Inl e \<Rightarrow> Inl e
      | Inr True \<Rightarrow> Inr (Some 0)
      | Inr False \<Rightarrow> try_bind (find_first cond ts) (\<lambda>r. Inr (map_option Suc r)))"

text \<open>
  \<^verbatim>\<open>task.description.lower() == d.lower()\<close>; the left side is evaluated
  first and raises on a description that is not a string.
\<close>

definition same_description :: "string \<Rightarrow> Task \<Rightarrow> exn + bool" where
  "same_description d t = try_bind (py_lower (description t)) (\<lambda>s. Inr (s = lower d))"

text \<open>
  \<^verbatim>\<open>task.description.lower() == d.lower() and task.status == "pending"\<close>
\<close>

definition same_description_pending :: "string \<Rightarrow> Task \<Rightarrow> exn + bool" where
  "same_description_pending d t =
     try_bind (same_description d t) (\<lambda>b. Inr (b \<and> status t = PStr ''pending''))"

text \<open>\<^verbatim>\<open>task.id == task_id and task.status == "pending"\<close>\<close>

definition same_id_pending :: "int \<Rightarrow> Task \<Rightarrow> exn + bool" where
  "same_id_pending n t = Inr (py_eq_int (id' t) n \<and> status t = PStr ''pending'')"

definition mark_found ::
  "string \<Rightarrow> exn + nat option \<Rightarrow> TodoListManager \<Rightarrow> filesystem \<Rightarrow> bool call" where
  "mark_found now r m fs =
     (case r of
        Inl e \<Rightarrow> (Raises e, m, fs)
      | Inr None \<Rightarrow> (Returns False, m, fs)
      | Inr (Some i) \<Rightarrow>
          (let m' = m\<lparr>tasks := (tasks m)[i := mark_completed now (tasks m ! i)]\<rparr>
           in (Returns True, m', save_tasks m' fs)))"

definition mark_task_completed ::
  "string \<Rightarrow> string \<Rightarrow> TodoListManager \<Rightarrow> filesystem \<Rightarrow> bool call" where
  "mark_task_completed now d m fs =
     mark_found now (find_first (same_description_pending d) (tasks m)) m fs"

definition mark_task_completed_by_id ::
  "string \<Rightarrow> int \<Rightarrow> TodoListManager \<Rightarrow> filesystem \<Rightarrow> bool call" where
  "mark_task_completed_by_id now n m fs =
     mark_found now (find_first (same_id_pending n) (tasks m)) m fs"

text \<open>\<^verbatim>\<open>self.tasks.pop(i)\<close> at the index \<^verbatim>\<open>enumerate\<close> gave.\<close>

definition remove_task :: "string \<Rightarrow> TodoListManager \<Rightarrow> filesystem \<Rightarrow> bool call" where
  "remove_task d m fs =
     (case find_first (same_description d) (tasks m) of
        Inl e \<Rightarrow> (Raises e, m, fs)
      | Inr None \<Rightarrow> (Returns False, m, fs)
      | Inr (Some i) \<Rightarrow>
          (let m' = m\<lparr>tasks := take i (tasks m) @ drop (Suc i) (tasks m)\<rparr>
           in (Returns True, m', save_tasks m' fs)))"

definition clear_all_tasks :: "TodoListManager \<Rightarrow> filesystem \<Rightarrow> bool call" where
  "clear_all_tasks m fs =
     (let m' = m\<lparr>tasks := [], next_id := PInt 1\<rparr>
      in (Returns True, m', save_tasks m' fs))"

text \<open>The queries read the manager only; \<open>None\<close> is Python's \<^verbatim>\<open>None\<close>.\<close>

definition get_task_by_description :: "string \<Rightarrow> TodoListManager \<Rightarrow> Task option outcome" where
  "get_task_by_description d m =
     (case find_first (same_description d) (tasks m) of
        Inl e \<Rightarrow> Raises e
      | Inr None \<Rightarrow> Returns None
      | Inr (Some i) \<Rightarrow> Returns (Some (tasks m ! i)))"

definition is_empty :: "TodoListManager \<Rightarrow> bool" where
  "is_empty m = (length (tasks m) = 0)"

text \<open>
  \<^verbatim>\<open>any\<close> over a generator: it asks for the elements one at a time, stops
  at the first true one, and an element that raises ends it.
\<close>

fun py_any :: "('a \<Rightarrow> exn + bool) \<Rightarrow> 'a list \<Rightarrow> exn + bool" where
  "py_any gen [] = Inr False"
| "py_any gen (x # xs) =
     (case gen x of
        Inl e \<Rightarrow> Inl e
      | Inr True \<Rightarrow> Inr True
      | Inr False \<Rightarrow> py_any gen xs)"

definition contains_task :: "string \<Rightarrow> TodoListManager \<Rightarrow> bool outcome" where
  "contains_task d m =
     (case py_any (same_description d) (tasks m) of
        Inl e \<Rightarrow> Raises e
      | Inr b \<Rightarrow> Returns b)"

section \<open>Sequences of operations\<close>

text \<open>
  The mutating operations a caller can invoke, with their arguments; the first
  argument of the three that read the clock is the time they read.
\<close>

datatype op =
    AddTask string string string string
  | MarkTaskCompleted string string
  | MarkTaskCompletedById string int
  | RemoveTask string
  | ClearAllTasks

fun exec :: "op \<Rightarrow> TodoListManager \<Rightarrow> filesystem \<Rightarrow> bool call" where
  "exec (AddTask now d p c) m fs = add_task now d p c m fs"
| "exec (MarkTaskCompleted now d) m fs = mark_task_completed now d m fs"
| "exec (MarkTaskCompletedById now n) m fs = mark_task_completed_by_id now n m fs"
| "exec (RemoveTask d) m fs = remove_task d m fs"
| "exec ClearAllTasks m fs = clear_all_tasks m fs"

text \<open>
  The caller goes on after a call that returned failure or raised, with the
  manager as the call left it.
\<close>

fun run :: "op list \<Rightarrow> TodoListManager \<Rightarrow> filesystem \<Rightarrow> TodoListManager \<times> filesystem" where
  "run [] m fs = (m, fs)"
| "run (a # as) m fs = (case exec a m fs of (r, m', fs') \<Rightarrow> run as m' fs')"

text \<open>The value of the counter before the first operation and after each one.\<close>

fun counters :: "op list \<Rightarrow> TodoListManager \<Rightarrow> filesystem \<Rightarrow> pyval list" where
  "counters [] m fs = [next_id m]"
| "counters (a # as) m fs = next_id m # (case exec a m fs of (r, m', fs') \<Rightarrow> counters as m' fs')"

text \<open>
  The id each successful \<^verbatim>\<open>add_task\<close> gave to the task it appended, in the
  order of the calls.
\<close>

fun assigned :: "op \<Rightarrow> bool outcome \<Rightarrow> TodoListManager \<Rightarrow> pyval list" where
  "assigned (AddTask now d p c) (Returns True) m' = [id' (last (tasks m'))]"
| "assigned a r m' = []"

fun assigned_ids :: "op list \<Rightarrow> TodoListManager \<Rightarrow> filesystem \<Rightarrow> pyval list" where
  "assigned_ids [] m fs = []"
| "assigned_ids (a # as) m fs =
     (case exec a m fs of (r, m', fs') \<Rightarrow> assigned a r m' @ assigned_ids as m' fs')"

text \<open>The order of ids and counters is that of the integers.\<close>

fun py_less :: "pyval \<Rightarrow> pyval \<Rightarrow> bool" where
  "py_less (PInt a) (PInt b) = (a < b)"
| "py_less u v = False"

fun py_le :: "pyval \<Rightarrow> pyval \<Rightarrow> bool" where
  "py_le (PInt a) (PInt b) = (a \<le> b)"
| "py_le u v = False"

definition ids_strictly_increasing :: "op list \<Rightarrow> TodoListManager \<Rightarrow> filesystem \<Rightarrow> bool" where
  "ids_strictly_increasing ops m fs = sorted_wrt py_less (assigned_ids ops m fs)"

definition counter_never_decrements :: "op list \<Rightarrow> TodoListManager \<Rightarrow> filesystem \<Rightarrow> bool" where
  "counter_never_decrements ops m fs = sorted_wrt py_le (counters ops m fs)"

section \<open>Well-formed states and matching\<close>

text \<open>
  The data model gives every task a string as description and an integer as
  id, below the integer counter.  Every manager that starts empty and is driven
  through the operations above is of this form; a manager loaded from a file
  written by hand need not be.
\<close>

definition is_str :: "pyval \<Rightarrow> bool" where
  "is_str v = (case v of PStr s \<Rightarrow> True | _ \<Rightarrow> False)"

definition str_descriptions :: "Task list \<Rightarrow> bool" where
  "str_descriptions ts = (\<forall>t \<in> set ts. is_str (description t))"

definition ids_below_counter :: "TodoListManager \<Rightarrow> bool" where
  "ids_below_counter m = (\<forall>t \<in> set (tasks m). py_less (id' t) (next_id m))"

definition is_int :: "pyval \<Rightarrow> bool" where
  "is_int v = (case v of PInt n \<Rightarrow> True | _ \<Rightarrow> False)"

definition well_formed :: "TodoListManager \<Rightarrow> bool" where
  "well_formed m = (is_int (next_id m) \<and> str_descriptions (tasks m) \<and> ids_below_counter m)"

text \<open>A task matches \<open>d\<close> when its description equals \<open>d\<close>, case aside.\<close>

definition matches :: "string \<Rightarrow> Task \<Rightarrow> bool" where
  "matches d t = (case description t of PStr s \<Rightarrow> lower s = lower d | _ \<Rightarrow> False)"

definition pending :: "Task \<Rightarrow> bool" where
  "pending t = (status t = PStr ''pending'')"




section \<open>Sample states\<close>

text \<open>
  The states and files the concrete instances below are evaluated on: a file
  system without files where every path can be written, the manager built on
  it, a manager with one pending and one completed task, a file that is not
  JSON, a file whose second record lacks fields, and a sequence of operations.
\<close>

definition no_files :: filesystem where
  "no_files = \<lparr>files = Map.empty, writable = (\<lambda>p. True)\<rparr>"

definition new_manager :: TodoListManager where
  "new_manager = \<lparr>data_file = ''todo_data.json'', tasks = [], next_id = PInt 1\<rparr>"

definition buy_milk :: Task where
  "buy_milk =
     (Task_init ''2024-01-01 09:00:00'' (PStr ''Buy milk'') (PStr ''medium'') (PStr ''general''))
       \<lparr>id' := PInt 1\<rparr>"

definition buy_eggs :: Task where
  "buy_eggs =
     (Task_init ''2024-01-01 09:05:00'' (PStr ''Buy eggs'') (PStr ''high'') (PStr ''food''))
       \<lparr>id' := PInt 2\<rparr>"

definition two_tasks :: TodoListManager where
  "two_tasks =
     \<lparr>data_file = ''todo_data.json'',
      tasks = [buy_milk, mark_completed ''2024-01-01 10:00:00'' buy_eggs],
      next_id = PInt 3\<rparr>"



definition shopping :: "op list" where
  "shopping =
     [AddTask ''2024-01-02 09:00:00'' ''Buy bread'' ''medium'' ''general'',
      RemoveTask ''buy milk'',
      AddTask ''2024-01-02 09:30:00'' '' Feed cat '' ''high'' ''home'',
      MarkTaskCompleted ''2024-01-02 10:00:00'' ''FEED CAT'']"

section \<open>Properties of Task\<close>

lemma try_bind_simps [simp]:
  "try_bind (Inl e) f = Inl e"
  "try_bind (Inr v) f = f v"
  by (simp_all add: try_bind_def)



text \<open>
  C9, as amended.  \<^verbatim>\<open>Task.mark_completed\<close> stamps the time of the call
  whatever the status is.  Applied twice, the status and every other field but
  \<open>completed_date\<close> are as after one application, and \<open>completed_date\<close>
  holds the time of the second call: the result equals that of one application
  exactly when both calls read the same time.
\<close>

theorem mark_completed_twice:
  "mark_completed b (mark_completed a t) = (mark_completed a t)\<lparr>completed_date := PStr b\<rparr>
   \<and> status (mark_completed b (mark_completed a t)) = status (mark_completed a t)
   \<and> (mark_completed b (mark_completed a t) = mark_completed a t \<longleftrightarrow> a = b)"
  by (auto simp add: mark_completed_def dest: arg_cong [where f = completed_date])

theorem mark_completed_twice_witness:
  "mark_completed ''2024-01-01 10:00:01'' (mark_completed ''2024-01-01 10:00:00'' buy_milk)
     = (mark_completed ''2024-01-01 10:00:00'' buy_milk)
         \<lparr>completed_date := PStr ''2024-01-01 10:00:01''\<rparr>"
  using mark_completed_twice [of "''2024-01-01 10:00:01''" "''2024-01-01 10:00:00''" buy_milk]
  by simp

text \<open>
  C9 as the specification states it fails: a second completion one second
  later changes \<open>completed_date\<close>.
\<close>

theorem mark_completed_not_idempotent:
  "completed_date
     (mark_completed ''2024-01-01 10:00:01'' (mark_completed ''2024-01-01 10:00:00'' buy_milk))
   \<noteq> completed_date (mark_completed ''2024-01-01 10:00:00'' buy_milk)"
  by (simp add: mark_completed_def)

section \<open>Persistence\<close>



section \<open>Adding tasks\<close>

text \<open>
  C4.  A description that is empty after trimming is rejected:
  \<^verbatim>\<open>add_task\<close> returns \<^verbatim>\<open>False\<close>, and the tasks, the counter and the
  file system are as before.
\<close>

theorem add_task_blank_rejected:
  "strip d = [] \<Longrightarrow> add_task now d p c m fs = (Returns False, m, fs)"
  by (simp add: add_task_def)

theorem add_task_blank_rejected_witness:
  "strip ''   '' = [] \<and> strip '''' = []
   \<and> add_task ''2024-01-01 10:00:00'' ''   '' ''medium'' ''general'' two_tasks no_files
       = (Returns False, two_tasks, no_files)
   \<and> add_task ''2024-01-01 10:00:00'' '''' ''medium'' ''general'' two_tasks no_files
       = (Returns False, two_tasks, no_files)"
proof -
  have a: "strip ''   '' = []" and b: "strip '''' = []"
    by (simp_all add: strip_def isspace_def)
  from add_task_blank_rejected [OF a] add_task_blank_rejected [OF b] a b show ?thesis
    by simp
qed

text \<open>
  C3.  On a manager whose counter is the integer \<open>n\<close>, \<^verbatim>\<open>add_task\<close>
  with a description that is not empty after trimming returns \<^verbatim>\<open>True\<close>;
  the task it creates carries the trimmed description and the id \<open>n\<close>, is
  pending, and stands at the end of the list; the counter becomes \<open>n + 1\<close>
  and the new state is saved.  On an empty manager with counter 1, adding
  "Buy milk" and then "Buy eggs" makes \<^verbatim>\<open>list_tasks\<close> return these two in
  this order, with the ids 1 and 2.
\<close>

theorem add_task_appends:
  "(strip d \<noteq> [] \<and> next_id m = PInt n \<longrightarrow>
      (let task = \<lparr>id' = PInt n, description = PStr (strip d), status = PStr ''pending'',
                    priority = PStr p, category = PStr c, created_date = PStr now,
                    completed_date = PNone\<rparr>;
           m' = m\<lparr>tasks := tasks m @ [task], next_id := PInt (n + 1)\<rparr>
       in add_task now d p c m fs = (Returns True, m', save_tasks m' fs)))
   \<and> (tasks m = [] \<and> next_id m = PInt 1 \<longrightarrow>
      (case add_task now ''Buy milk'' ''medium'' ''general'' m fs of (r1, m1, fs1) \<Rightarrow>
       case add_task now' ''Buy eggs'' ''medium'' ''general'' m1 fs1 of (r2, m2, fs2) \<Rightarrow>
         r1 = Returns True \<and> r2 = Returns True
         \<and> map (\<lambda>t. (id' t, description t)) (list_tasks m2)
             = [(PInt 1, PStr ''Buy milk''), (PInt 2, PStr ''Buy eggs'')]))"
proof -
  have milk: "strip ''Buy milk'' = ''Buy milk''" and eggs: "strip ''Buy eggs'' = ''Buy eggs''"
    by (simp_all add: strip_def isspace_def)
  have general: "add_task now d p c m fs =
      (Returns True,
       m\<lparr>tasks := tasks m @ [\<lparr>id' = PInt n, description = PStr (strip d), status = PStr ''pending'',
                    priority = PStr p, category = PStr c, created_date = PStr now,
                    completed_date = PNone\<rparr>], next_id := PInt (n + 1)\<rparr>,
       save_tasks (m\<lparr>tasks := tasks m @ [\<lparr>id' = PInt n, description = PStr (strip d), status = PStr ''pending'',
                    priority = PStr p, category = PStr c, created_date = PStr now,
                    completed_date = PNone\<rparr>], next_id := PInt (n + 1)\<rparr>) fs)"
    if "strip d \<noteq> []" "next_id m = PInt n" for d p c m fs now n
    using that by (simp add: add_task_def Task_init_def Let_def)
  show ?thesis
    by (simp add: general milk eggs list_tasks_def Let_def)
qed

theorem add_task_appends_witness:
  "strip ''  Buy bread '' \<noteq> [] \<and> next_id two_tasks = PInt 3
   \<and> add_task ''2024-01-03 12:00:00'' ''  Buy bread '' ''low'' ''food'' two_tasks no_files
       = (Returns True,
          two_tasks\<lparr>tasks := tasks two_tasks @
             [\<lparr>id' = PInt 3, description = PStr ''Buy bread'', status = PStr ''pending'',
               priority = PStr ''low'', category = PStr ''food'',
               created_date = PStr ''2024-01-03 12:00:00'', completed_date = PNone\<rparr>],
             next_id := PInt 4\<rparr>,
          save_tasks (two_tasks\<lparr>tasks := tasks two_tasks @
             [\<lparr>id' = PInt 3, description = PStr ''Buy bread'', status = PStr ''pending'',
               priority = PStr ''low'', category = PStr ''food'',
               created_date = PStr ''2024-01-03 12:00:00'', completed_date = PNone\<rparr>],
             next_id := PInt 4\<rparr>) no_files)
   \<and> tasks new_manager = [] \<and> next_id new_manager = PInt 1
   \<and> (case add_task ''2024-01-03 12:00:00'' ''Buy milk'' ''medium'' ''general'' new_manager no_files
        of (r1, m1, fs1) \<Rightarrow>
        case add_task ''2024-01-03 12:00:05'' ''Buy eggs'' ''medium'' ''general'' m1 fs1
        of (r2, m2, fs2) \<Rightarrow>
          r1 = Returns True \<and> r2 = Returns True
          \<and> map (\<lambda>t. (id' t, description t)) (list_tasks m2)
              = [(PInt 1, PStr ''Buy milk''), (PInt 2, PStr ''Buy eggs'')])"
proof -
  have a: "strip ''  Buy bread '' = ''Buy bread''"
    by (simp add: strip_def isspace_def)
  have b: "next_id two_tasks = PInt 3"
    by (simp add: two_tasks_def)
  have c: "tasks new_manager = []" "next_id new_manager = PInt 1"
    by (simp_all add: new_manager_def)
  note first = add_task_appends [where d = "''  Buy bread ''" and m = two_tasks and n = 3
      and now = "''2024-01-03 12:00:00''" and p = "''low''" and c = "''food''" and fs = no_files,
      THEN conjunct1]
  note second = add_task_appends [where m = new_manager and fs = no_files
      and now = "''2024-01-03 12:00:00''" and now' = "''2024-01-03 12:00:05''", THEN conjunct2]
  from first a b have 1: "add_task ''2024-01-03 12:00:00'' ''  Buy bread '' ''low'' ''food'' two_tasks no_files
       = (Returns True,
          two_tasks\<lparr>tasks := tasks two_tasks @
             [\<lparr>id' = PInt 3, description = PStr ''Buy bread'', status = PStr ''pending'',
               priority = PStr ''low'', category = PStr ''food'',
               created_date = PStr ''2024-01-03 12:00:00'', completed_date = PNone\<rparr>],
             next_id := PInt 4\<rparr>,
          save_tasks (two_tasks\<lparr>tasks := tasks two_tasks @
             [\<lparr>id' = PInt 3, description = PStr ''Buy bread'', status = PStr ''pending'',
               priority = PStr ''low'', category = PStr ''food'',
               created_date = PStr ''2024-01-03 12:00:00'', completed_date = PNone\<rparr>],
             next_id := PInt 4\<rparr>) no_files)"
    by (simp add: Let_def)
  from c have "tasks new_manager = [] \<and> next_id new_manager = PInt 1"
    by simp
  then have 2: "(case add_task ''2024-01-03 12:00:00'' ''Buy milk'' ''medium'' ''general'' new_manager no_files
        of (r1, m1, fs1) \<Rightarrow>
        case add_task ''2024-01-03 12:00:05'' ''Buy eggs'' ''medium'' ''general'' m1 fs1
        of (r2, m2, fs2) \<Rightarrow>
          r1 = Returns True \<and> r2 = Returns True
          \<and> map (\<lambda>t. (id' t, description t)) (list_tasks m2)
              = [(PInt 1, PStr ''Buy milk''), (PInt 2, PStr ''Buy eggs'')])"
    by (rule second [THEN mp])
  from a b c 1 2 show ?thesis
    by (intro conjI) simp_all
qed

section \<open>Clearing\<close>

text \<open>
  C7.  \<^verbatim>\<open>clear_all_tasks\<close> returns \<^verbatim>\<open>True\<close> on every manager,
  leaves no task, sets the counter to 1 and saves; a task added right after
  gets the id 1.
\<close>

theorem clear_all_tasks_resets:
  "clear_all_tasks m fs
     = (Returns True, m\<lparr>tasks := [], next_id := PInt 1\<rparr>,
        save_tasks (m\<lparr>tasks := [], next_id := PInt 1\<rparr>) fs)
   \<and> (strip d \<noteq> [] \<longrightarrow>
        (case clear_all_tasks m fs of (r, m', fs') \<Rightarrow>
         case add_task now d p c m' fs' of (r2, m2, fs2) \<Rightarrow>
           r2 = Returns True \<and> map id' (tasks m2) = [PInt 1]))"
  by (simp add: clear_all_tasks_def add_task_def Task_init_def Let_def)

theorem clear_all_tasks_resets_witness:
  "fst (clear_all_tasks two_tasks no_files) = Returns True
   \<and> tasks (fst (snd (clear_all_tasks two_tasks no_files))) = []
   \<and> next_id (fst (snd (clear_all_tasks two_tasks no_files))) = PInt 1
   \<and> strip ''Buy bread'' \<noteq> []
   \<and> (case clear_all_tasks two_tasks no_files of (r, m', fs') \<Rightarrow>
       case add_task ''2024-01-03 12:00:00'' ''Buy bread'' ''medium'' ''general'' m' fs'
       of (r2, m2, fs2) \<Rightarrow> r2 = Returns True \<and> map id' (tasks m2) = [PInt 1])"
proof -
  have a: "strip ''Buy bread'' \<noteq> []"
    by (simp add: strip_def isspace_def)
  note inst = clear_all_tasks_resets [where m = two_tasks and fs = no_files
      and d = "''Buy bread''" and now = "''2024-01-03 12:00:00''" and p = "''medium''"
      and c = "''general''"]
  from inst have 1: "clear_all_tasks two_tasks no_files
     = (Returns True, two_tasks\<lparr>tasks := [], next_id := PInt 1\<rparr>,
        save_tasks (two_tasks\<lparr>tasks := [], next_id := PInt 1\<rparr>) no_files)"
    by (rule conjunct1)
  have 2: "(case clear_all_tasks two_tasks no_files of (r, m', fs') \<Rightarrow>
       case add_task ''2024-01-03 12:00:00'' ''Buy bread'' ''medium'' ''general'' m' fs'
       of (r2, m2, fs2) \<Rightarrow> r2 = Returns True \<and> map id' (tasks m2) = [PInt 1])"
    by (rule inst [THEN conjunct2, THEN mp, OF a])
  have 3: "fst (clear_all_tasks two_tasks no_files) = Returns True
   \<and> tasks (fst (snd (clear_all_tasks two_tasks no_files))) = []
   \<and> next_id (fst (snd (clear_all_tasks two_tasks no_files))) = PInt 1"
    by (simp add: 1)
  from a 2 3 show ?thesis
    by (intro conjI) simp_all
qed

section \<open>Loading\<close>

lemma from_dict_clock: "from_dict now data = from_dict now' data"
  by (simp add: from_dict_def Task_init_def try_bind_def split: sum.splits)





text \<open>
  A file of the right shape is taken as it is: the counter stored is the
  counter of the manager, whatever value it is, and a file without tasks
  gives no task.
\<close>

lemma init_counter_as_stored:
  "files fs path = Some (Parsed (PDict [(''next_id'', v), (''tasks'', PList [])])) \<Longrightarrow>
     TodoListManager_init now path fs = \<lparr>data_file = path, tasks = [], next_id = v\<rparr>"
  by (simp add: TodoListManager_init_def load_tasks_def load_body_def)



section \<open>Finding the first match and completing it\<close>

lemma find_first_hit:
  "\<forall>u \<in> set pre. cond u = Inr False \<Longrightarrow> cond t = Inr True \<Longrightarrow>
     find_first cond (pre @ t # post) = Inr (Some (length pre))"
  by (induction pre) simp_all

lemma find_first_miss:
  "\<forall>u \<in> set ts. cond u = Inr False \<Longrightarrow> find_first cond ts = Inr None"
  by (induction ts) simp_all

lemma find_first_SomeD:
  "find_first cond ts = Inr (Some i) \<Longrightarrow> i < length ts \<and> cond (ts ! i) = Inr True"
proof (induction ts arbitrary: i)
  case Nil
  then show ?case by simp
next
  case (Cons t ts)
  show ?case
  proof (cases "cond t")
    case (Inl e)
    with Cons.prems show ?thesis by simp
  next
    case (Inr b)
    show ?thesis
    proof (cases b)
      case True
      with Inr Cons.prems show ?thesis by simp
    next
      case False
      with Inr Cons.prems obtain j where j: "find_first cond ts = Inr (Some j)" and i: "i = Suc j"
        by (auto simp add: try_bind_def split: sum.splits)
      from Cons.IH [OF j] i show ?thesis by simp
    qed
  qed
qed

lemma same_description_str:
  "is_str (description t) \<Longrightarrow> same_description d t = Inr (matches d t)"
  by (cases "description t") (simp_all add: is_str_def same_description_def matches_def)

lemma same_description_pending_str:
  "is_str (description t) \<Longrightarrow> same_description_pending d t = Inr (matches d t \<and> pending t)"
  by (simp add: same_description_pending_def same_description_str pending_def)

lemma same_description_pending_TrueD:
  "same_description_pending d t = Inr True \<Longrightarrow> pending t"
  by (auto simp add: same_description_pending_def pending_def try_bind_def split: sum.splits)

lemma mark_found_hit:
  "tasks m = pre @ t # post \<Longrightarrow>
     mark_found now (Inr (Some (length pre))) m fs
       = (Returns True, m\<lparr>tasks := pre @ mark_completed now t # post\<rparr>,
          save_tasks (m\<lparr>tasks := pre @ mark_completed now t # post\<rparr>) fs)"
  by (simp add: mark_found_def Let_def)

lemma mark_task_completed_hit:
  assumes "str_descriptions (tasks m)" and "tasks m = pre @ t # post"
    and "\<forall>u \<in> set pre. \<not> (matches d u \<and> pending u)" and "matches d t" and "pending t"
  shows "mark_task_completed now d m fs
     = (Returns True, m\<lparr>tasks := pre @ mark_completed now t # post\<rparr>,
        save_tasks (m\<lparr>tasks := pre @ mark_completed now t # post\<rparr>) fs)"
proof -
  from assms have "\<forall>u \<in> set pre. same_description_pending d u = Inr False"
    by (simp add: str_descriptions_def same_description_pending_str)
  moreover from assms have "same_description_pending d t = Inr True"
    by (simp add: str_descriptions_def same_description_pending_str)
  ultimately have "find_first (same_description_pending d) (tasks m) = Inr (Some (length pre))"
    unfolding assms(2) by (rule find_first_hit)
  then show ?thesis
    by (simp add: mark_task_completed_def mark_found_hit [OF assms(2)])
qed

lemma mark_task_completed_miss:
  assumes "str_descriptions (tasks m)"
    and "\<forall>u \<in> set (tasks m). \<not> (matches d u \<and> pending u)"
  shows "mark_task_completed now d m fs = (Returns False, m, fs)"
proof -
  from assms have "\<forall>u \<in> set (tasks m). same_description_pending d u = Inr False"
    by (simp add: str_descriptions_def same_description_pending_str)
  then have "find_first (same_description_pending d) (tasks m) = Inr None"
    by (rule find_first_miss)
  then show ?thesis
    by (simp add: mark_task_completed_def mark_found_def)
qed

lemma mark_task_completed_keeps_completed:
  assumes "mark_task_completed now d m fs = (r, m', fs')"
    and "i < length (tasks m)" and "\<not> pending (tasks m ! i)"
  shows "length (tasks m') = length (tasks m) \<and> tasks m' ! i = tasks m ! i"
proof (cases "find_first (same_description_pending d) (tasks m)")
  case (Inl e)
  with assms(1) show ?thesis
    by (auto simp add: mark_task_completed_def mark_found_def)
next
  case (Inr found)
  show ?thesis
  proof (cases found)
    case None
    with Inr assms(1) show ?thesis
      by (auto simp add: mark_task_completed_def mark_found_def)
  next
    case (Some j)
    from find_first_SomeD [OF Inr [unfolded Some]]
    have "pending (tasks m ! j)"
      by (auto dest: same_description_pending_TrueD)
    with assms(3) have "i \<noteq> j" by auto
    with Inr Some assms(1) show ?thesis
      by (auto simp add: mark_task_completed_def mark_found_def Let_def)
  qed
qed

text \<open>
  C5.  On a manager whose descriptions are strings,
  \<^verbatim>\<open>mark_task_completed\<close> acts on the first task, in list order, that
  matches the description case aside and is pending: that task becomes
  completed with the time of the call as \<open>completed_date\<close>, the rest of the
  list is as before, the state is saved, and the call returns \<^verbatim>\<open>True\<close>.
  With no pending match it returns \<^verbatim>\<open>False\<close> and changes nothing; so
  does a second call after the only pending match was completed.  No call
  changes a task that is not pending.
\<close>

theorem mark_task_completed_first_pending:
  assumes "str_descriptions (tasks m)"
  shows
    "(tasks m = pre @ t # post \<and> (\<forall>u \<in> set pre. \<not> (matches d u \<and> pending u))
        \<and> matches d t \<and> pending t \<longrightarrow>
        (let m' = m\<lparr>tasks := pre @ mark_completed now t # post\<rparr>
         in mark_task_completed now d m fs = (Returns True, m', save_tasks m' fs)
            \<and> status (mark_completed now t) = PStr ''completed''
            \<and> completed_date (mark_completed now t) = PStr now
            \<and> completed_date (mark_completed now t) \<noteq> PNone
            \<and> ((\<forall>u \<in> set post. \<not> (matches d u \<and> pending u)) \<longrightarrow>
                 mark_task_completed now' d m' (save_tasks m' fs)
                   = (Returns False, m', save_tasks m' fs))))
     \<and> ((\<forall>u \<in> set (tasks m). \<not> (matches d u \<and> pending u)) \<longrightarrow>
          mark_task_completed now d m fs = (Returns False, m, fs))
     \<and> (\<forall>i < length (tasks m). \<not> pending (tasks m ! i) \<longrightarrow>
          tasks (fst (snd (mark_task_completed now d m fs))) ! i = tasks m ! i)"
proof (intro conjI impI allI)
  assume h: "tasks m = pre @ t # post \<and> (\<forall>u \<in> set pre. \<not> (matches d u \<and> pending u))
        \<and> matches d t \<and> pending t"
  let ?m' = "m\<lparr>tasks := pre @ mark_completed now t # post\<rparr>"
  have first: "mark_task_completed now d m fs = (Returns True, ?m', save_tasks ?m' fs)"
    using assms h by (intro mark_task_completed_hit) simp_all
  have stamped: "\<not> pending (mark_completed now t)" "matches d (mark_completed now t) = matches d t"
    by (simp_all add: pending_def mark_completed_def matches_def)
  have str: "str_descriptions (tasks ?m')"
    using assms h by (auto simp add: str_descriptions_def mark_completed_def)
  have again: "mark_task_completed now' d ?m' (save_tasks ?m' fs)
       = (Returns False, ?m', save_tasks ?m' fs)"
    if "\<forall>u \<in> set post. \<not> (matches d u \<and> pending u)"
    using str that h stamped by (intro mark_task_completed_miss) auto
  show "let m' = ?m'
         in mark_task_completed now d m fs = (Returns True, m', save_tasks m' fs)
            \<and> status (mark_completed now t) = PStr ''completed''
            \<and> completed_date (mark_completed now t) = PStr now
            \<and> completed_date (mark_completed now t) \<noteq> PNone
            \<and> ((\<forall>u \<in> set post. \<not> (matches d u \<and> pending u)) \<longrightarrow>
                 mark_task_completed now' d m' (save_tasks m' fs)
                   = (Returns False, m', save_tasks m' fs))"
    unfolding Let_def using first again by (simp add: mark_completed_def)
next
  assume "\<forall>u \<in> set (tasks m). \<not> (matches d u \<and> pending u)"
  with assms show "mark_task_completed now d m fs = (Returns False, m, fs)"
    by (rule mark_task_completed_miss)
next
  fix i
  assume "i < length (tasks m)" "\<not> pending (tasks m ! i)"
  with mark_task_completed_keeps_completed [of now d m fs]
  show "tasks (fst (snd (mark_task_completed now d m fs))) ! i = tasks m ! i"
    by (cases "mark_task_completed now d m fs") auto
qed

theorem mark_task_completed_first_pending_witness:
  "str_descriptions (tasks two_tasks) \<and> matches ''BUY MILK'' buy_milk \<and> pending buy_milk
   \<and> mark_task_completed ''2024-01-01 11:00:00'' ''BUY MILK'' two_tasks no_files
       = (Returns True,
          two_tasks\<lparr>tasks := [mark_completed ''2024-01-01 11:00:00'' buy_milk,
                               mark_completed ''2024-01-01 10:00:00'' buy_eggs]\<rparr>,
          save_tasks
            (two_tasks\<lparr>tasks := [mark_completed ''2024-01-01 11:00:00'' buy_milk,
                                  mark_completed ''2024-01-01 10:00:00'' buy_eggs]\<rparr>) no_files)
   \<and> mark_task_completed ''2024-01-01 12:00:00'' ''BUY MILK''
        (two_tasks\<lparr>tasks := [mark_completed ''2024-01-01 11:00:00'' buy_milk,
                              mark_completed ''2024-01-01 10:00:00'' buy_eggs]\<rparr>)
        (save_tasks
            (two_tasks\<lparr>tasks := [mark_completed ''2024-01-01 11:00:00'' buy_milk,
                                  mark_completed ''2024-01-01 10:00:00'' buy_eggs]\<rparr>) no_files)
       = (Returns False,
          two_tasks\<lparr>tasks := [mark_completed ''2024-01-01 11:00:00'' buy_milk,
                               mark_completed ''2024-01-01 10:00:00'' buy_eggs]\<rparr>,
          save_tasks
            (two_tasks\<lparr>tasks := [mark_completed ''2024-01-01 11:00:00'' buy_milk,
                                  mark_completed ''2024-01-01 10:00:00'' buy_eggs]\<rparr>) no_files)
   \<and> mark_task_completed ''2024-01-01 11:00:00'' ''Feed cat'' two_tasks no_files
       = (Returns False, two_tasks, no_files)
   \<and> \<not> pending (tasks two_tasks ! 1)
   \<and> tasks (fst (snd (mark_task_completed ''2024-01-01 11:00:00'' ''buy eggs'' two_tasks no_files))) ! 1
       = tasks two_tasks ! 1"
proof -
  let ?post = "[mark_completed ''2024-01-01 10:00:00'' buy_eggs]"
  have str: "str_descriptions (tasks two_tasks)"
    by code_simp
  have m: "matches ''BUY MILK'' buy_milk" and p: "pending buy_milk"
    by code_simp+
  have hyp: "tasks two_tasks = [] @ buy_milk # ?post
      \<and> (\<forall>u \<in> set []. \<not> (matches ''BUY MILK'' u \<and> pending u))
      \<and> matches ''BUY MILK'' buy_milk \<and> pending buy_milk"
    using m p by (simp add: two_tasks_def)
  have post: "\<forall>u \<in> set ?post. \<not> (matches ''BUY MILK'' u \<and> pending u)"
    by code_simp
  have none: "\<forall>u \<in> set (tasks two_tasks). \<not> (matches ''Feed cat'' u \<and> pending u)"
    by code_simp
  have eggs: "1 < length (tasks two_tasks)" "\<not> pending (tasks two_tasks ! 1)"
    by code_simp+
  note hit = mark_task_completed_first_pending [OF str, where d = "''BUY MILK''"
      and now = "''2024-01-01 11:00:00''" and now' = "''2024-01-01 12:00:00''" and fs = no_files,
      THEN conjunct1, THEN mp, OF hyp, unfolded Let_def]
  note miss = mark_task_completed_first_pending [OF str, where d = "''Feed cat''"
      and now = "''2024-01-01 11:00:00''" and fs = no_files,
      THEN conjunct2, THEN conjunct1, THEN mp, OF none]
  note kept = mark_task_completed_first_pending [OF str, where d = "''buy eggs''"
      and now = "''2024-01-01 11:00:00''" and fs = no_files,
      THEN conjunct2, THEN conjunct2, rule_format, OF eggs]
  note first = hit [THEN conjunct1]
  note again = hit [THEN conjunct2, THEN conjunct2, THEN conjunct2, THEN conjunct2, THEN mp, OF post]
  from str m p first again miss eggs(2) kept show ?thesis
    by (intro conjI) simp_all
qed

section \<open>Removing tasks\<close>

lemma py_less_PInt: "py_less a b \<Longrightarrow> \<exists>i n. a = PInt i \<and> b = PInt n \<and> i < n"
  by (cases a; cases b) simp_all

lemma remove_task_hit:
  assumes "str_descriptions (tasks m)" and "tasks m = pre @ t # post"
    and "\<forall>u \<in> set pre. \<not> matches d u" and "matches d t"
  shows "remove_task d m fs
     = (Returns True, m\<lparr>tasks := pre @ post\<rparr>, save_tasks (m\<lparr>tasks := pre @ post\<rparr>) fs)"
proof -
  from assms have "\<forall>u \<in> set pre. same_description d u = Inr False"
    by (simp add: str_descriptions_def same_description_str)
  moreover from assms have "same_description d t = Inr True"
    by (simp add: str_descriptions_def same_description_str)
  ultimately have "find_first (same_description d) (tasks m) = Inr (Some (length pre))"
    unfolding assms(2) by (rule find_first_hit)
  then show ?thesis
    by (simp add: remove_task_def assms(2) Let_def)
qed

lemma remove_task_miss:
  assumes "str_descriptions (tasks m)" and "\<forall>u \<in> set (tasks m). \<not> matches d u"
  shows "remove_task d m fs = (Returns False, m, fs)"
proof -
  from assms have "\<forall>u \<in> set (tasks m). same_description d u = Inr False"
    by (simp add: str_descriptions_def same_description_str)
  then have "find_first (same_description d) (tasks m) = Inr None"
    by (rule find_first_miss)
  then show ?thesis
    by (simp add: remove_task_def)
qed

lemma add_task_after:
  assumes "next_id m = PInt n" and "strip d \<noteq> []"
  shows "fst (add_task now d p c m fs) = Returns True"
    and "butlast (tasks (fst (snd (add_task now d p c m fs)))) = tasks m"
    and "id' (last (tasks (fst (snd (add_task now d p c m fs))))) = PInt n"
  using assms by (simp_all add: add_task_def Task_init_def Let_def)

text \<open>
  C6.  On a manager whose descriptions are strings, \<^verbatim>\<open>remove_task\<close>
  removes the first task that matches the description case aside, whatever
  its status, and returns \<^verbatim>\<open>True\<close>; the other tasks stay as they are, in
  their order.  With no match it returns \<^verbatim>\<open>False\<close> and changes nothing.
  The counter is not touched: where the ids in the list are below the counter,
  the task added next gets the value of the counter as id, which is neither
  the id of the removed task nor that of any task the list held.
\<close>

theorem remove_task_first_match:
  assumes "str_descriptions (tasks m)"
  shows
    "(tasks m = pre @ t # post \<and> (\<forall>u \<in> set pre. \<not> matches d u) \<and> matches d t \<longrightarrow>
        (let m' = m\<lparr>tasks := pre @ post\<rparr>
         in remove_task d m fs = (Returns True, m', save_tasks m' fs)
            \<and> (ids_below_counter m \<and> strip d' \<noteq> [] \<longrightarrow>
                 (case add_task now d' p c m' (save_tasks m' fs) of (r, m2, fs2) \<Rightarrow>
                    r = Returns True
                    \<and> butlast (tasks m2) = pre @ post
                    \<and> id' (last (tasks m2)) = next_id m
                    \<and> id' (last (tasks m2)) \<noteq> id' t
                    \<and> (\<forall>u \<in> set (tasks m). id' (last (tasks m2)) \<noteq> id' u)))))
     \<and> ((\<forall>u \<in> set (tasks m). \<not> matches d u) \<longrightarrow> remove_task d m fs = (Returns False, m, fs))"
proof (intro conjI impI)
  assume h: "tasks m = pre @ t # post \<and> (\<forall>u \<in> set pre. \<not> matches d u) \<and> matches d t"
  let ?m' = "m\<lparr>tasks := pre @ post\<rparr>"
  from h have shape: "tasks m = pre @ t # post" and pre: "\<forall>u \<in> set pre. \<not> matches d u"
    and t: "matches d t"
    by simp_all
  have removed: "remove_task d m fs = (Returns True, ?m', save_tasks ?m' fs)"
    by (rule remove_task_hit [OF assms shape pre t])
  have added: "case add_task now d' p c ?m' (save_tasks ?m' fs) of (r, m2, fs2) \<Rightarrow>
                    r = Returns True
                    \<and> butlast (tasks m2) = pre @ post
                    \<and> id' (last (tasks m2)) = next_id m
                    \<and> id' (last (tasks m2)) \<noteq> id' t
                    \<and> (\<forall>u \<in> set (tasks m). id' (last (tasks m2)) \<noteq> id' u)"
    if inv: "ids_below_counter m" and d': "strip d' \<noteq> []"
  proof -
    from h have "t \<in> set (tasks m)" by simp
    with inv have "py_less (id' t) (next_id m)"
      by (simp add: ids_below_counter_def)
    then obtain n where n: "next_id m = PInt n"
      by (auto dest: py_less_PInt)
    then have n': "next_id ?m' = PInt n" by simp
    have fresh: "PInt n \<noteq> id' u" if "u \<in> set (tasks m)" for u
    proof -
      from inv that have "py_less (id' u) (PInt n)"
        by (simp add: ids_below_counter_def n)
      then show ?thesis
        by (auto dest: py_less_PInt)
    qed
    from add_task_after [OF n' d', of now p c "save_tasks ?m' fs"] fresh n h
    show ?thesis
      by (cases "add_task now d' p c ?m' (save_tasks ?m' fs)") auto
  qed
  show "let m' = ?m'
         in remove_task d m fs = (Returns True, m', save_tasks m' fs)
            \<and> (ids_below_counter m \<and> strip d' \<noteq> [] \<longrightarrow>
                 (case add_task now d' p c m' (save_tasks m' fs) of (r, m2, fs2) \<Rightarrow>
                    r = Returns True
                    \<and> butlast (tasks m2) = pre @ post
                    \<and> id' (last (tasks m2)) = next_id m
                    \<and> id' (last (tasks m2)) \<noteq> id' t
                    \<and> (\<forall>u \<in> set (tasks m). id' (last (tasks m2)) \<noteq> id' u)))"
    unfolding Let_def
  proof (intro conjI impI)
    show "remove_task d m fs = (Returns True, ?m', save_tasks ?m' fs)"
      by (rule removed)
  next
    assume "ids_below_counter m \<and> strip d' \<noteq> []"
    then have inv: "ids_below_counter m" and d': "strip d' \<noteq> []"
      by simp_all
    show "case add_task now d' p c ?m' (save_tasks ?m' fs) of (r, m2, fs2) \<Rightarrow>
                    r = Returns True
                    \<and> butlast (tasks m2) = pre @ post
                    \<and> id' (last (tasks m2)) = next_id m
                    \<and> id' (last (tasks m2)) \<noteq> id' t
                    \<and> (\<forall>u \<in> set (tasks m). id' (last (tasks m2)) \<noteq> id' u)"
      by (rule added [OF inv d'])
  qed
next
  assume "\<forall>u \<in> set (tasks m). \<not> matches d u"
  with assms show "remove_task d m fs = (Returns False, m, fs)"
    by (rule remove_task_miss)
qed

theorem remove_task_first_match_witness:
  "str_descriptions (tasks two_tasks) \<and> ids_below_counter two_tasks
   \<and> matches ''buy EGGS'' (mark_completed ''2024-01-01 10:00:00'' buy_eggs)
   \<and> \<not> matches ''buy EGGS'' buy_milk
   \<and> remove_task ''buy EGGS'' two_tasks no_files
       = (Returns True, two_tasks\<lparr>tasks := [buy_milk]\<rparr>,
          save_tasks (two_tasks\<lparr>tasks := [buy_milk]\<rparr>) no_files)
   \<and> strip ''Buy bread'' \<noteq> []
   \<and> (case add_task ''2024-01-02 09:00:00'' ''Buy bread'' ''medium'' ''general''
             (two_tasks\<lparr>tasks := [buy_milk]\<rparr>)
             (save_tasks (two_tasks\<lparr>tasks := [buy_milk]\<rparr>) no_files)
       of (r, m2, fs2) \<Rightarrow>
          r = Returns True \<and> butlast (tasks m2) = [buy_milk]
          \<and> id' (last (tasks m2)) = PInt 3 \<and> id' (last (tasks m2)) \<noteq> PInt 2)
   \<and> remove_task ''Feed cat'' two_tasks no_files = (Returns False, two_tasks, no_files)"
proof -
  let ?eggs = "mark_completed ''2024-01-01 10:00:00'' buy_eggs"
  let ?m' = "two_tasks\<lparr>tasks := [buy_milk]\<rparr>"
  have str: "str_descriptions (tasks two_tasks)" and inv: "ids_below_counter two_tasks"
    by code_simp+
  have eggs: "matches ''buy EGGS'' ?eggs" and milk: "\<not> matches ''buy EGGS'' buy_milk"
    by code_simp+
  have bread: "strip ''Buy bread'' \<noteq> []"
    by code_simp
  have none: "\<forall>u \<in> set (tasks two_tasks). \<not> matches ''Feed cat'' u"
    by code_simp
  have hyp: "tasks two_tasks = [buy_milk] @ ?eggs # []
      \<and> (\<forall>u \<in> set [buy_milk]. \<not> matches ''buy EGGS'' u) \<and> matches ''buy EGGS'' ?eggs"
    using eggs milk by (simp add: two_tasks_def)
  note hit = remove_task_first_match [OF str, where d = "''buy EGGS''" and fs = no_files
      and d' = "''Buy bread''" and now = "''2024-01-02 09:00:00''" and p = "''medium''"
      and c = "''general''",
      THEN conjunct1, THEN mp, OF hyp, unfolded Let_def]
  note miss = remove_task_first_match [OF str, where d = "''Feed cat''" and fs = no_files,
      THEN conjunct2, THEN mp, OF none]
  have m': "two_tasks\<lparr>tasks := [buy_milk] @ []\<rparr> = ?m'"
    by simp
  note removed = hit [THEN conjunct1, unfolded m']
  note added = hit [THEN conjunct2, THEN mp, OF conjI, OF inv bread, unfolded m']
  have ids: "next_id two_tasks = PInt 3" "id' ?eggs = PInt 2"
    by (simp_all add: two_tasks_def buy_eggs_def mark_completed_def)
  from added ids have added':
    "case add_task ''2024-01-02 09:00:00'' ''Buy bread'' ''medium'' ''general'' ?m'
             (save_tasks ?m' no_files)
       of (r, m2, fs2) \<Rightarrow>
          r = Returns True \<and> butlast (tasks m2) = [buy_milk]
          \<and> id' (last (tasks m2)) = PInt 3 \<and> id' (last (tasks m2)) \<noteq> PInt 2"
    by (cases "add_task ''2024-01-02 09:00:00'' ''Buy bread'' ''medium'' ''general'' ?m'
             (save_tasks ?m' no_files)") simp
  from str inv eggs milk removed bread added' miss show ?thesis
    by (intro conjI)
qed

section \<open>Queries\<close>

lemma py_any_find_first:
  "py_any cond ts = try_bind (find_first cond ts) (\<lambda>r. Inr (r \<noteq> None))"
proof (induction ts)
  case Nil
  show ?case by simp
next
  case (Cons t ts)
  then show ?case
    by (cases "find_first cond ts") (auto split: sum.splits bool.splits)
qed

lemma get_task_by_description_hit:
  assumes "str_descriptions (tasks m)" and "tasks m = pre @ t # post"
    and "\<forall>u \<in> set pre. \<not> matches d u" and "matches d t"
  shows "get_task_by_description d m = Returns (Some t)"
proof -
  from assms have "\<forall>u \<in> set pre. same_description d u = Inr False"
    by (simp add: str_descriptions_def same_description_str)
  moreover from assms have "same_description d t = Inr True"
    by (simp add: str_descriptions_def same_description_str)
  ultimately have "find_first (same_description d) (tasks m) = Inr (Some (length pre))"
    unfolding assms(2) by (rule find_first_hit)
  then show ?thesis
    by (simp add: get_task_by_description_def assms(2))
qed

lemma py_any_str:
  "str_descriptions ts \<Longrightarrow> py_any (same_description d) ts = Inr (\<exists>t \<in> set ts. matches d t)"
  by (induction ts) (auto simp add: str_descriptions_def same_description_str split: bool.splits)

text \<open>
  C10.  \<^verbatim>\<open>contains_task\<close> returns \<^verbatim>\<open>True\<close> exactly when
  \<^verbatim>\<open>get_task_by_description\<close> returns a task and not \<^verbatim>\<open>None\<close>, on
  every manager (a description that is not a string makes both raise, at the
  same task).  Where the descriptions are strings, both decide by the same
  match, case aside and whatever the status, and
  \<^verbatim>\<open>get_task_by_description\<close> returns the first match in list order.
\<close>

theorem contains_task_iff_get:
  "contains_task d m
     = (case get_task_by_description d m of
          Returns r \<Rightarrow> Returns (r \<noteq> None)
        | Raises e \<Rightarrow> Raises e)
   \<and> (str_descriptions (tasks m) \<longrightarrow>
        contains_task d m = Returns (\<exists>t \<in> set (tasks m). matches d t)
        \<and> (tasks m = pre @ t # post \<and> (\<forall>u \<in> set pre. \<not> matches d u) \<and> matches d t \<longrightarrow>
             get_task_by_description d m = Returns (Some t))
        \<and> ((\<forall>u \<in> set (tasks m). \<not> matches d u) \<longrightarrow>
             get_task_by_description d m = Returns None))"
proof (intro conjI impI)
  show "contains_task d m
     = (case get_task_by_description d m of
          Returns r \<Rightarrow> Returns (r \<noteq> None)
        | Raises e \<Rightarrow> Raises e)"
    by (simp add: contains_task_def get_task_by_description_def py_any_find_first
        split: sum.splits option.splits)
next
  assume "str_descriptions (tasks m)"
  then show "contains_task d m = Returns (\<exists>t \<in> set (tasks m). matches d t)"
    by (simp add: contains_task_def py_any_str)
next
  assume str: "str_descriptions (tasks m)"
    and h: "tasks m = pre @ t # post \<and> (\<forall>u \<in> set pre. \<not> matches d u) \<and> matches d t"
  from h have shape: "tasks m = pre @ t # post" and pre: "\<forall>u \<in> set pre. \<not> matches d u"
    and t: "matches d t"
    by simp_all
  show "get_task_by_description d m = Returns (Some t)"
    by (rule get_task_by_description_hit [OF str shape pre t])
next
  assume str: "str_descriptions (tasks m)" and "\<forall>u \<in> set (tasks m). \<not> matches d u"
  then have "\<forall>u \<in> set (tasks m). same_description d u = Inr False"
    by (simp add: str_descriptions_def same_description_str)
  then have "find_first (same_description d) (tasks m) = Inr None"
    by (rule find_first_miss)
  then show "get_task_by_description d m = Returns None"
    by (simp add: get_task_by_description_def)
qed

theorem contains_task_iff_get_witness:
  "str_descriptions (tasks two_tasks)
   \<and> get_task_by_description ''BUY MILK'' two_tasks = Returns (Some buy_milk)
   \<and> contains_task ''BUY MILK'' two_tasks = Returns True
   \<and> get_task_by_description ''buy eggs'' two_tasks
       = Returns (Some (mark_completed ''2024-01-01 10:00:00'' buy_eggs))
   \<and> contains_task ''buy eggs'' two_tasks = Returns True
   \<and> get_task_by_description ''Feed cat'' two_tasks = Returns None
   \<and> contains_task ''Feed cat'' two_tasks = Returns False"
proof -
  let ?eggs = "mark_completed ''2024-01-01 10:00:00'' buy_eggs"
  have str: "str_descriptions (tasks two_tasks)"
    by code_simp
  have milk: "tasks two_tasks = [] @ buy_milk # [?eggs]
      \<and> (\<forall>u \<in> set []. \<not> matches ''BUY MILK'' u) \<and> matches ''BUY MILK'' buy_milk"
    by code_simp
  have eggs: "tasks two_tasks = [buy_milk] @ ?eggs # []
      \<and> (\<forall>u \<in> set [buy_milk]. \<not> matches ''buy eggs'' u) \<and> matches ''buy eggs'' ?eggs"
    by code_simp
  have none: "\<forall>u \<in> set (tasks two_tasks). \<not> matches ''Feed cat'' u"
    by code_simp
  note get1 = contains_task_iff_get [where m = two_tasks and d = "''BUY MILK''",
      THEN conjunct2, THEN mp, OF str, THEN conjunct2, THEN conjunct1, THEN mp, OF milk]
  note get2 = contains_task_iff_get [where m = two_tasks and d = "''buy eggs''",
      THEN conjunct2, THEN mp, OF str, THEN conjunct2, THEN conjunct1, THEN mp, OF eggs]
  note get3 = contains_task_iff_get [where m = two_tasks and d = "''Feed cat''",
      THEN conjunct2, THEN mp, OF str, THEN conjunct2, THEN conjunct2, THEN mp, OF none]
  have has1: "contains_task ''BUY MILK'' two_tasks = Returns True"
    using contains_task_iff_get [where m = two_tasks and d = "''BUY MILK''", THEN conjunct1]
    by (simp add: get1)
  have has2: "contains_task ''buy eggs'' two_tasks = Returns True"
    using contains_task_iff_get [where m = two_tasks and d = "''buy eggs''", THEN conjunct1]
    by (simp add: get2)
  have has3: "contains_task ''Feed cat'' two_tasks = Returns False"
    using contains_task_iff_get [where m = two_tasks and d = "''Feed cat''", THEN conjunct1]
    by (simp add: get3)
  from str get1 has1 get2 has2 get3 has3 show ?thesis
    by (intro conjI)
qed

section \<open>Identifiers along a sequence of operations\<close>

lemma mark_found_next_id:
  "mark_found now found m fs = (r, m', fs') \<Longrightarrow> next_id m' = next_id m"
  by (auto simp add: mark_found_def Let_def split: sum.splits option.splits)

lemma mark_found_tasks:
  "mark_found now found m fs = (r, m', fs') \<Longrightarrow>
     set (tasks m') \<subseteq> set (tasks m) \<union> mark_completed now ` set (tasks m)"
proof (cases found)
  case (Inl e)
  assume "mark_found now found m fs = (r, m', fs')"
  with Inl show ?thesis by (auto simp add: mark_found_def)
next
  case (Inr found')
  assume run: "mark_found now found m fs = (r, m', fs')"
  show ?thesis
  proof (cases found')
    case None
    with Inr run show ?thesis by (auto simp add: mark_found_def)
  next
    case (Some i)
    with Inr run have m': "tasks m' = (tasks m)[i := mark_completed now (tasks m ! i)]"
      by (auto simp add: mark_found_def Let_def)
    show ?thesis
    proof (cases "i < length (tasks m)")
      case True
      then have "mark_completed now (tasks m ! i) \<in> mark_completed now ` set (tasks m)"
        by simp
      with set_update_subset_insert [of "tasks m" i "mark_completed now (tasks m ! i)"]
      show ?thesis unfolding m' by blast
    next
      case False
      then show ?thesis unfolding m' by (simp add: list_update_beyond)
    qed
  qed
qed

lemma remove_task_next_id:
  "remove_task d m fs = (r, m', fs') \<Longrightarrow> next_id m' = next_id m"
  by (auto simp add: remove_task_def Let_def split: sum.splits option.splits)

lemma remove_task_tasks:
  "remove_task d m fs = (r, m', fs') \<Longrightarrow> set (tasks m') \<subseteq> set (tasks m)"
  by (auto simp add: remove_task_def Let_def split: sum.splits option.splits
      dest: in_set_takeD in_set_dropD)

lemma add_task_cases:
  assumes "next_id m = PInt n" and "add_task now d p c m fs = (r, m', fs')"
  shows "(r = Returns False \<and> m' = m)
       \<or> (r = Returns True \<and> next_id m' = PInt (n + 1)
            \<and> (\<exists>t. tasks m' = tasks m @ [t] \<and> id' t = PInt n \<and> is_str (description t)))"
  using assms by (auto simp add: add_task_def Task_init_def Let_def is_str_def split: if_splits)

lemma exec_counter:
  assumes "a \<noteq> ClearAllTasks" and "next_id m = PInt n" and "exec a m fs = (r, m', fs')"
  shows "\<exists>n'. next_id m' = PInt n' \<and> n \<le> n'
           \<and> (assigned a r m' = [] \<or> (assigned a r m' = [PInt n] \<and> n < n'))"
proof (cases a)
  case (AddTask now d p c)
  with assms(3) have "add_task now d p c m fs = (r, m', fs')" by simp
  from add_task_cases [OF assms(2) this] AddTask assms(2) show ?thesis
    by auto
next
  case (MarkTaskCompleted now d)
  with assms(3) have "next_id m' = next_id m"
    by (auto simp add: mark_task_completed_def dest: mark_found_next_id)
  with MarkTaskCompleted assms(2) show ?thesis by simp
next
  case (MarkTaskCompletedById now i)
  with assms(3) have "next_id m' = next_id m"
    by (auto simp add: mark_task_completed_by_id_def dest: mark_found_next_id)
  with MarkTaskCompletedById assms(2) show ?thesis by simp
next
  case (RemoveTask d)
  with assms(3) have "next_id m' = next_id m"
    by (auto dest: remove_task_next_id)
  with RemoveTask assms(2) show ?thesis by simp
next
  case ClearAllTasks
  with assms(1) show ?thesis by simp
qed

lemma run_counters:
  assumes "ClearAllTasks \<notin> set ops" and "next_id m = PInt n"
  shows "\<exists>is cs. assigned_ids ops m fs = map PInt is \<and> sorted_wrt (<) is \<and> (\<forall>i \<in> set is. n \<le> i)
           \<and> counters ops m fs = map PInt cs \<and> sorted cs \<and> (\<forall>c \<in> set cs. n \<le> c)"
  using assms
proof (induction ops arbitrary: m fs n)
  case Nil
  have "counters [] m fs = map PInt [n]"
    using Nil.prems by simp
  then show ?case
    by (intro exI [of _ "[]"] exI [of _ "[n]"]) simp
next
  case (Cons a ops)
  obtain r m' fs' where step: "exec a m fs = (r, m', fs')"
    by (cases "exec a m fs") auto
  from Cons.prems have a: "a \<noteq> ClearAllTasks" and ops: "ClearAllTasks \<notin> set ops"
    by auto
  from exec_counter [OF a Cons.prems(2) step] obtain n' where n': "next_id m' = PInt n'"
    and le: "n \<le> n'" and new: "assigned a r m' = [] \<or> (assigned a r m' = [PInt n] \<and> n < n')"
    by blast
  from Cons.IH [OF ops n', of fs'] obtain "is" cs
    where "is": "assigned_ids ops m' fs' = map PInt is" "sorted_wrt (<) is" "\<forall>i \<in> set is. n' \<le> i"
      and cs: "counters ops m' fs' = map PInt cs" "sorted cs" "\<forall>c \<in> set cs. n' \<le> c"
    by blast
  have count: "counters (a # ops) m fs = map PInt (n # cs)"
    using step cs(1) Cons.prems(2) by simp
  have cs': "sorted (n # cs)" "\<forall>c \<in> set (n # cs). n \<le> c"
    using cs le by auto
  from new show ?case
  proof
    assume "assigned a r m' = []"
    then have "assigned_ids (a # ops) m fs = map PInt is"
      using step "is"(1) by simp
    moreover have "\<forall>i \<in> set is. n \<le> i"
      using "is"(3) le by auto
    ultimately show ?thesis
      using "is"(2) count cs' by blast
  next
    assume "assigned a r m' = [PInt n] \<and> n < n'"
    then have "assigned_ids (a # ops) m fs = map PInt (n # is)" and "n < n'"
      using step "is"(1) by simp_all
    moreover have "sorted_wrt (<) (n # is)" "\<forall>i \<in> set (n # is). n \<le> i"
      using "is"(2,3) \<open>n < n'\<close> by auto
    ultimately show ?thesis
      using count cs' by blast
  qed
qed

lemma sorted_wrt_py_less: "sorted_wrt py_less (map PInt is) = sorted_wrt (<) is"
  by (simp add: sorted_wrt_map)

lemma sorted_wrt_py_le: "sorted_wrt py_le (map PInt cs) = sorted cs"
  by (simp add: sorted_wrt_map)

text \<open>
  C2, as amended.  In every sequence of operations without
  \<^verbatim>\<open>clear_all_tasks\<close>, on a manager whose counter is an integer, the ids
  that the successive \<^verbatim>\<open>add_task\<close> calls assign are strictly increasing
  in the order of the calls, hence never assigned twice, also after removals;
  the counter never decreases; and where the ids in the list were below the
  counter at the start, no id of a task the list held is assigned again.
\<close>

theorem ids_increase_without_clear:
  assumes "ClearAllTasks \<notin> set ops" and "next_id m = PInt n"
  shows "ids_strictly_increasing ops m fs
       \<and> counter_never_decrements ops m fs
       \<and> distinct (assigned_ids ops m fs)
       \<and> (ids_below_counter m \<longrightarrow> (\<forall>t \<in> set (tasks m). id' t \<notin> set (assigned_ids ops m fs)))"
proof -
  from run_counters [OF assms, of fs] obtain "is" cs
    where "is": "assigned_ids ops m fs = map PInt is" "sorted_wrt (<) is" "\<forall>i \<in> set is. n \<le> i"
      and cs: "counters ops m fs = map PInt cs" "sorted cs"
    by blast
  have 1: "ids_strictly_increasing ops m fs"
    by (simp add: ids_strictly_increasing_def "is" sorted_wrt_py_less)
  have 2: "counter_never_decrements ops m fs"
    by (simp add: counter_never_decrements_def cs sorted_wrt_py_le)
  have 3: "distinct (assigned_ids ops m fs)"
    using "is"(2) by (simp add: "is"(1) distinct_map strict_sorted_iff inj_on_def)
  have 4: "id' t \<notin> set (assigned_ids ops m fs)"
    if "ids_below_counter m" "t \<in> set (tasks m)" for t
  proof -
    from that have "py_less (id' t) (PInt n)"
      by (simp add: ids_below_counter_def assms(2))
    then obtain i where "id' t = PInt i" "i < n"
      by (auto dest: py_less_PInt)
    with "is"(3) show ?thesis
      by (auto simp add: "is"(1))
  qed
  from 1 2 3 4 show ?thesis
    by blast
qed

theorem ids_increase_without_clear_witness:
  "ClearAllTasks \<notin> set shopping \<and> next_id two_tasks = PInt 3 \<and> ids_below_counter two_tasks
   \<and> assigned_ids shopping two_tasks no_files = [PInt 3, PInt 4]
   \<and> ids_strictly_increasing shopping two_tasks no_files
   \<and> counter_never_decrements shopping two_tasks no_files
   \<and> distinct (assigned_ids shopping two_tasks no_files)
   \<and> id' buy_milk \<notin> set (assigned_ids shopping two_tasks no_files)"
proof -
  have a: "ClearAllTasks \<notin> set shopping" and b: "next_id two_tasks = PInt 3"
    and c: "ids_below_counter two_tasks" and d: "buy_milk \<in> set (tasks two_tasks)"
    by code_simp+
  have e: "assigned_ids shopping two_tasks no_files = [PInt 3, PInt 4]"
    by code_simp
  note inst = ids_increase_without_clear [OF a b, of no_files]
  note fresh = inst [THEN conjunct2, THEN conjunct2, THEN conjunct2, THEN mp, OF c, rule_format, OF d]
  from a b c e inst [THEN conjunct1] inst [THEN conjunct2, THEN conjunct1]
    inst [THEN conjunct2, THEN conjunct2, THEN conjunct1] fresh
  show ?thesis
    by (intro conjI)
qed

text \<open>
  C2 as the specification states it, for every sequence of operations, fails:
  \<^verbatim>\<open>clear_all_tasks\<close> sets the counter back from 2 to 1, and the task
  added after it gets the id 1 a second time.
\<close>

theorem ids_after_clear_counterexample:
  "\<not> counter_never_decrements
       [AddTask ''2024-01-01 09:00:00'' ''Buy milk'' ''medium'' ''general'', ClearAllTasks]
       new_manager no_files
   \<and> \<not> ids_strictly_increasing
       [AddTask ''2024-01-01 09:00:00'' ''Buy milk'' ''medium'' ''general'', ClearAllTasks,
        AddTask ''2024-01-01 09:10:00'' ''Buy eggs'' ''medium'' ''general'']
       new_manager no_files"
  by code_simp

section \<open>The states the operations reach\<close>

text \<open>
  The conditions the theorems above put on a manager (an integer counter,
  strings as descriptions, ids below the counter) hold on the empty manager
  and are kept by every operation, whatever it returns.
\<close>

lemma mark_completed_fields [simp]:
  "id' (mark_completed now t) = id' t"
  "description (mark_completed now t) = description t"
  by (simp_all add: mark_completed_def)

lemma mark_found_well_formed:
  assumes "well_formed m" and "mark_found now found m fs = (r, m', fs')"
  shows "well_formed m'"
proof -
  have "\<exists>u \<in> set (tasks m). id' t = id' u \<and> description t = description u"
    if "t \<in> set (tasks m')" for t
  proof -
    from mark_found_tasks [OF assms(2)] that
    have "t \<in> set (tasks m) \<or> t \<in> mark_completed now ` set (tasks m)"
      by blast
    then show ?thesis
    proof
      assume "t \<in> set (tasks m)"
      then show ?thesis by blast
    next
      assume "t \<in> mark_completed now ` set (tasks m)"
      then obtain u where "u \<in> set (tasks m)" "t = mark_completed now u"
        by blast
      then show ?thesis
        by (intro bexI [of _ u]) simp_all
    qed
  qed
  then have "\<forall>t \<in> set (tasks m'). \<exists>u \<in> set (tasks m).
      id' t = id' u \<and> description t = description u"
    by blast
  with assms(1) mark_found_next_id [OF assms(2)] show ?thesis
    by (fastforce simp add: well_formed_def str_descriptions_def ids_below_counter_def)
qed

lemma exec_well_formed:
  assumes "well_formed m" and "exec a m fs = (r, m', fs')"
  shows "well_formed m'"
proof (cases a)
  case (AddTask now d p c)
  from assms(1) obtain n where n: "next_id m = PInt n"
    by (auto simp add: well_formed_def is_int_def split: pyval.splits)
  from AddTask assms(2) have "add_task now d p c m fs = (r, m', fs')" by simp
  from add_task_cases [OF n this] show ?thesis
  proof
    assume "r = Returns False \<and> m' = m"
    with assms(1) show ?thesis by simp
  next
    assume "r = Returns True \<and> next_id m' = PInt (n + 1)
       \<and> (\<exists>t. tasks m' = tasks m @ [t] \<and> id' t = PInt n \<and> is_str (description t))"
    then obtain t where "next_id m' = PInt (n + 1)" "tasks m' = tasks m @ [t]"
      "id' t = PInt n" "is_str (description t)"
      by blast
    moreover have "py_less v (PInt (n + 1))" if "py_less v (PInt n)" for v
      using that by (cases v) simp_all
    ultimately show ?thesis
      using assms(1) n
      by (auto simp add: well_formed_def is_int_def str_descriptions_def ids_below_counter_def)
  qed
next
  case (MarkTaskCompleted now d)
  with assms show ?thesis
    by (auto simp add: mark_task_completed_def dest: mark_found_well_formed)
next
  case (MarkTaskCompletedById now i)
  with assms show ?thesis
    by (auto simp add: mark_task_completed_by_id_def dest: mark_found_well_formed)
next
  case (RemoveTask d)
  with assms(2) have "remove_task d m fs = (r, m', fs')" by simp
  from remove_task_tasks [OF this] remove_task_next_id [OF this] assms(1) show ?thesis
    by (auto simp add: well_formed_def str_descriptions_def ids_below_counter_def)
next
  case ClearAllTasks
  with assms(2) show ?thesis
    by (auto simp add: clear_all_tasks_def Let_def well_formed_def is_int_def
        str_descriptions_def ids_below_counter_def)
qed

lemma run_well_formed:
  "well_formed m \<Longrightarrow> run ops m fs = (m', fs') \<Longrightarrow> well_formed m'"
proof (induction ops arbitrary: m fs)
  case Nil
  then show ?case by simp
next
  case (Cons a ops)
  obtain r m1 fs1 where step: "exec a m fs = (r, m1, fs1)"
    by (cases "exec a m fs") auto
  from exec_well_formed [OF Cons.prems(1) step] have "well_formed m1" .
  moreover from Cons.prems(2) step have "run ops m1 fs1 = (m', fs')" by simp
  ultimately show ?case by (rule Cons.IH)
qed

lemma empty_manager_well_formed:
  "well_formed \<lparr>data_file = path, tasks = [], next_id = PInt 1\<rparr>"
  by (simp add: well_formed_def is_int_def str_descriptions_def ids_below_counter_def)

end
